theory Spec2Isabelle
  imports Main
begin

section \<open>Strings and numbers of the source language\<close>

text \<open>
  A JavaScript string is modelled as a \<open>string\<close>, a list of 8-bit characters (the code
  units up to 0xFF). A version component is a JavaScript number that holds a
  non-negative integer (\<open>Number.parseInt\<close> of a run of decimal digits); it is modelled as
  a \<open>nat\<close>, which is what the source computes on the integers a double holds exactly
  (below \<open>2 ^ 53\<close>).
\<close>

definition isDigit :: "char \<Rightarrow> bool" where
  \<comment> \<open>The class \<open>\d\<close>, that is \<open>[0-9]\<close>.\<close>
  "isDigit c = (48 \<le> (of_char c :: nat) \<and> (of_char c :: nat) \<le> 57)"

definition isNonZeroDigit :: "char \<Rightarrow> bool" where
  \<comment> \<open>The class \<open>[1-9]\<close>.\<close>
  "isNonZeroDigit c = (49 \<le> (of_char c :: nat) \<and> (of_char c :: nat) \<le> 57)"

definition isLower :: "char \<Rightarrow> bool" where
  \<comment> \<open>The class \<open>[a-z]\<close>.\<close>
  "isLower c = (97 \<le> (of_char c :: nat) \<and> (of_char c :: nat) \<le> 122)"

definition isUpper :: "char \<Rightarrow> bool" where
  \<comment> \<open>The class \<open>[A-Z]\<close>.\<close>
  "isUpper c = (65 \<le> (of_char c :: nat) \<and> (of_char c :: nat) \<le> 90)"

definition isHexLower :: "char \<Rightarrow> bool" where
  \<comment> \<open>The class \<open>[\da-f]\<close>.\<close>
  "isHexLower c = (isDigit c \<or> (97 \<le> (of_char c :: nat) \<and> (of_char c :: nat) \<le> 102))"

definition isLetterOrHyphen :: "char \<Rightarrow> bool" where
  \<comment> \<open>The class \<open>[A-Za-z-]\<close>.\<close>
  "isLetterOrHyphen c = (isUpper c \<or> isLower c \<or> c = CHR ''-'')"

definition isIdentChar :: "char \<Rightarrow> bool" where
  \<comment> \<open>The class \<open>[\dA-Za-z-]\<close>.\<close>
  "isIdentChar c = (isDigit c \<or> isLetterOrHyphen c)"

definition isLineTerminator :: "char \<Rightarrow> bool" where
  \<comment> \<open>What \<open>.\<close> does not match: line feed and carriage return (U+2028 and U+2029 are
      outside the 8-bit characters).\<close>
  "isLineTerminator c = ((of_char c :: nat) = 10 \<or> (of_char c :: nat) = 13)"

definition isWhiteSpace :: "char \<Rightarrow> bool" where
  \<comment> \<open>What \<open>trim\<close> strips: tab, line feed, vertical tab, form feed, carriage return,
      space and no-break space.\<close>
  "isWhiteSpace c = ((of_char c :: nat) \<in> {9, 10, 11, 12, 13, 32, 160})"

definition trim :: "string \<Rightarrow> string" where
  "trim s = rev (dropWhile isWhiteSpace (rev (dropWhile isWhiteSpace s)))"

definition toLowerChar :: "char \<Rightarrow> char" where
  \<comment> \<open>Lower case of one code unit: A-Z, and the upper-case letters of Latin-1
      (0xC0-0xDE without the multiplication sign 0xD7).\<close>
  "toLowerChar c =
     (let n = (of_char c :: nat)
      in if (65 \<le> n \<and> n \<le> 90) \<or> (192 \<le> n \<and> n \<le> 222 \<and> n \<noteq> 215)
         then char_of (n + 32) else c)"

definition toLowerCase :: "string \<Rightarrow> string" where
  "toLowerCase s = map toLowerChar s"

definition startsWith :: "string \<Rightarrow> string \<Rightarrow> bool" where
  \<comment> \<open>\<open>s.startsWith(p)\<close>\<close>
  "startsWith s p = (take (length p) s = p)"

fun includesStr :: "string \<Rightarrow> string \<Rightarrow> bool" where
  \<comment> \<open>\<open>s.includes(p)\<close>\<close>
  "includesStr [] p = (p = [])"
| "includesStr (c # cs) p = (startsWith (c # cs) p \<or> includesStr cs p)"

fun indexOf :: "string \<Rightarrow> char \<Rightarrow> nat option" where
  \<comment> \<open>\<open>s.indexOf(ch)\<close>; \<open>None\<close> stands for -1.\<close>
  "indexOf [] ch = None"
| "indexOf (c # cs) ch = (if c = ch then Some 0 else map_option Suc (indexOf cs ch))"

fun splitOn :: "char \<Rightarrow> string \<Rightarrow> string list" where
  \<comment> \<open>\<open>s.split(sep)\<close> for a separator of one character.\<close>
  "splitOn sep [] = [[]]"
| "splitOn sep (c # cs) =
     (if c = sep then [] # splitOn sep cs
      else (case splitOn sep cs of [] \<Rightarrow> [[c]] | p # ps \<Rightarrow> (c # p) # ps))"

fun join :: "string \<Rightarrow> string list \<Rightarrow> string" where
  \<comment> \<open>\<open>parts.join(sep)\<close>\<close>
  "join sep [] = []"
| "join sep [p] = p"
| "join sep (p # q # ps) = p @ sep @ join sep (q # ps)"

definition slice :: "string \<Rightarrow> int \<Rightarrow> int \<Rightarrow> string" where
  \<comment> \<open>\<open>s.slice(start, end)\<close>: a negative index counts from the end, every index is
      clamped to the string, and the result is empty when the start is not before the
      end.\<close>
  "slice s a b =
     (let n = int (length s);
          from = (if a < 0 then max (n + a) 0 else min a n);
          to = (if b < 0 then max (n + b) 0 else min b n)
      in take (nat (to - from)) (drop (nat from) s))"

definition digitVal :: "char \<Rightarrow> nat" where
  "digitVal c = (of_char c :: nat) - 48"

definition parseInt :: "string \<Rightarrow> nat" where
  \<comment> \<open>\<open>Number.parseInt\<close> on a run of decimal digits, the only strings the source gives it
      (capture groups 1 to 3 of \<open>SEMVER_REGEX\<close>).\<close>
  "parseInt ds = foldl (\<lambda>n c. 10 * n + digitVal c) 0 ds"

fun numToString :: "nat \<Rightarrow> string" where
  \<comment> \<open>A non-negative integer in a template literal: its decimal digits.\<close>
  "numToString n =
     (if n < 10 then [char_of (48 + n)]
      else numToString (n div 10) @ [char_of (48 + n mod 10)])"

declare numToString.simps [simp del]

definition truthy :: "string option \<Rightarrow> bool" where
  \<comment> \<open>Truthiness of an optional string: \<open>undefined\<close> and the empty string are falsy.\<close>
  "truthy s = (case s of None \<Rightarrow> False | Some t \<Rightarrow> t \<noteq> [])"

section \<open>Regular expressions\<close>

text \<open>
  The source's regular expressions use character classes, sequence, alternation,
  option and repetition, no back-references and no flags. \<open>test\<close> finds a match iff some
  substring allowed by the anchors is in the language of the expression, so the
  expressions are modelled by their syntax (\<open>regex\<close>), their language (\<open>lang\<close>) and a
  matcher that consumes the input one character at a time (\<open>after\<close>).
\<close>

datatype regex =
    Never
  | Empty
  | Class "char \<Rightarrow> bool"
  | Seq regex regex
  | Alt regex regex
  | Star regex

definition Chr :: "char \<Rightarrow> regex" where
  "Chr x = Class (\<lambda>c. c = x)"

definition Opt :: "regex \<Rightarrow> regex" where
  \<comment> \<open>\<open>r?\<close>\<close>
  "Opt r = Alt r Empty"

definition Plus :: "regex \<Rightarrow> regex" where
  \<comment> \<open>\<open>r+\<close>\<close>
  "Plus r = Seq r (Star r)"

fun Lit :: "string \<Rightarrow> regex" where
  \<comment> \<open>A literal run of characters.\<close>
  "Lit [] = Empty"
| "Lit (c # cs) = Seq (Chr c) (Lit cs)"

inductive_set star :: "string set \<Rightarrow> string set" for A :: "string set" where
  star_empty: "[] \<in> star A"
| star_step: "u \<in> A \<Longrightarrow> v \<in> star A \<Longrightarrow> u @ v \<in> star A"

fun lang :: "regex \<Rightarrow> string set" where
  "lang Never = {}"
| "lang Empty = {[]}"
| "lang (Class p) = {[c] | c. p c}"
| "lang (Seq a b) = {u @ v | u v. u \<in> lang a \<and> v \<in> lang b}"
| "lang (Alt a b) = lang a \<union> lang b"
| "lang (Star a) = star (lang a)"

fun matchesEmpty :: "regex \<Rightarrow> bool" where
  "matchesEmpty Never = False"
| "matchesEmpty Empty = True"
| "matchesEmpty (Class p) = False"
| "matchesEmpty (Seq a b) = (matchesEmpty a \<and> matchesEmpty b)"
| "matchesEmpty (Alt a b) = (matchesEmpty a \<or> matchesEmpty b)"
| "matchesEmpty (Star a) = True"

fun after :: "char \<Rightarrow> regex \<Rightarrow> regex" where
  \<comment> \<open>What is left to match once the character \<open>c\<close> has been read.\<close>
  "after c Never = Never"
| "after c Empty = Never"
| "after c (Class p) = (if p c then Empty else Never)"
| "after c (Seq a b) =
     (if matchesEmpty a then Alt (Seq (after c a) b) (after c b) else Seq (after c a) b)"
| "after c (Alt a b) = Alt (after c a) (after c b)"
| "after c (Star a) = Seq (after c a) (Star a)"

fun testWhole :: "regex \<Rightarrow> string \<Rightarrow> bool" where
  \<comment> \<open>\<open>/^r$/.test(s)\<close>: the whole string is matched.\<close>
  "testWhole r [] = matchesEmpty r"
| "testWhole r (c # cs) = testWhole (after c r) cs"

fun testPrefix :: "regex \<Rightarrow> string \<Rightarrow> bool" where
  \<comment> \<open>\<open>/^r/.test(s)\<close>: a match starts at the first character and may end anywhere.\<close>
  "testPrefix r [] = matchesEmpty r"
| "testPrefix r (c # cs) = (matchesEmpty r \<or> testPrefix (after c r) cs)"

section \<open>Versions (\<open>src/lib/version.ts\<close>)\<close>

definition NUMERIC :: regex where
  \<comment> \<open>\<open>(0|[1-9]\d*)\<close>\<close>
  "NUMERIC = Alt (Chr (CHR ''0'')) (Seq (Class isNonZeroDigit) (Star (Class isDigit)))"

definition PRERELEASE_ID :: regex where
  \<comment> \<open>\<open>(?:0|[1-9]\d*|\d*[A-Za-z-][\dA-Za-z-]*)\<close>\<close>
  "PRERELEASE_ID =
     Alt (Chr (CHR ''0''))
       (Alt (Seq (Class isNonZeroDigit) (Star (Class isDigit)))
            (Seq (Star (Class isDigit)) (Seq (Class isLetterOrHyphen) (Star (Class isIdentChar)))))"

definition PRERELEASE :: regex where
  \<comment> \<open>Capture group 4: identifiers separated by dots.\<close>
  "PRERELEASE = Seq PRERELEASE_ID (Star (Seq (Chr (CHR ''.'')) PRERELEASE_ID))"

definition BUILD :: regex where
  \<comment> \<open>Capture group 5: \<open>[\dA-Za-z-]+(?:\.[\dA-Za-z-]+)*\<close>\<close>
  "BUILD = Seq (Plus (Class isIdentChar)) (Star (Seq (Chr (CHR ''.'')) (Plus (Class isIdentChar))))"

definition SEMVER_REGEX :: regex where
  \<comment> \<open>The expression between \<open>^\<close> and \<open>$\<close>.\<close>
  "SEMVER_REGEX =
     Seq NUMERIC (Seq (Chr (CHR ''.'')) (Seq NUMERIC (Seq (Chr (CHR ''.'')) (Seq NUMERIC
       (Seq (Opt (Seq (Chr (CHR ''-'')) PRERELEASE)) (Opt (Seq (Chr (CHR ''+'')) BUILD)))))))"

record Version =
  major :: nat
  minor :: nat
  patch :: nat
  suffix :: "string option"

definition matchSemver :: "string \<Rightarrow> (string \<times> string \<times> string \<times> string option) option" where
  \<comment> \<open>\<open>s.match(SEMVER_REGEX)\<close>: \<open>None\<close> when the expression does not match, else capture
      groups 1 to 4. A matching string has one decomposition only (the three numeric
      groups end at the dots and at the first non-digit, the prerelease at the first
      \<open>+\<close>), so the groups are read off at these delimiters; \<open>semver_groups\<close> below
      proves that every way of matching the expression gives these groups.\<close>
  "matchSemver s =
     (if testWhole SEMVER_REGEX s then
        (let g1 = takeWhile (\<lambda>c. c \<noteq> CHR ''.'') s;
             r1 = drop (length g1 + 1) s;
             g2 = takeWhile (\<lambda>c. c \<noteq> CHR ''.'') r1;
             r2 = drop (length g2 + 1) r1;
             g3 = takeWhile isDigit r2;
             r3 = drop (length g3) r2;
             g4 = (case r3 of
                     [] \<Rightarrow> None
                   | c # t \<Rightarrow> if c = CHR ''-'' then Some (takeWhile (\<lambda>c. c \<noteq> CHR ''+'') t) else None)
         in Some (g1, g2, g3, g4))
      else None)"

definition parseVersion :: "string \<Rightarrow> Version" where
  "parseVersion version =
     (case matchSemver (trim version) of
        Some (g1, g2, g3, g4) \<Rightarrow>
          \<lparr>major = parseInt g1, minor = parseInt g2, patch = parseInt g3, suffix = g4\<rparr>
      | None \<Rightarrow> \<lparr>major = 0, minor = 0, patch = 0, suffix = Some ''new''\<rparr>)"

definition isFirstBefore :: "Version \<Rightarrow> Version \<Rightarrow> bool" where
  "isFirstBefore first second =
     (if major first \<noteq> major second then major first < major second
      else if minor first \<noteq> minor second then minor first < minor second
      else if patch first \<noteq> patch second then patch first < patch second
      else (truthy (suffix first) \<and> \<not> truthy (suffix second)))"

definition versionToSemverString :: "Version \<Rightarrow> string" where
  "versionToSemverString version =
     numToString (major version) @ ''.'' @ numToString (minor version) @ ''.'' @
     numToString (patch version) @
     (case suffix version of
        None \<Rightarrow> ''''
      | Some t \<Rightarrow> if t \<noteq> [] then ''-'' @ t else '''')"

definition versionToHumanString :: "Version \<Rightarrow> string" where
  \<comment> \<open>The source tests \<open>version.major === 0\<close> twice and never \<open>version.minor\<close>.\<close>
  "versionToHumanString version =
     (case suffix version of
        None \<Rightarrow> versionToSemverString version
      | Some t \<Rightarrow>
          if major version = 0 \<and> major version = 0 \<and> patch version = 0 \<and> t \<noteq> []
          then ''['' @ t @ '']''
          else versionToSemverString version)"

section \<open>Commits and their classification (\<open>src/lib/conventional.ts\<close>)\<close>

datatype semverImpact = Major | Minor | Patch | Unknown

record Commit =
  hash :: string
  message :: string
  footer :: string
  versions :: "Version list"
  semver :: semverImpact

definition SCOPE :: regex where
  \<comment> \<open>\<open>(\([^)]+\))?\<close>\<close>
  "SCOPE = Opt (Seq (Chr (CHR ''('')) (Seq (Plus (Class (\<lambda>c. c \<noteq> CHR '')''))) (Chr (CHR '')''))))"

definition FEAT_REGEX :: regex where
  \<comment> \<open>\<open>/^feat(\([^)]+\))?!?:/\<close>\<close>
  "FEAT_REGEX = Seq (Lit ''feat'') (Seq SCOPE (Seq (Opt (Chr (CHR ''!''))) (Chr (CHR '':''))))"

definition BREAKING_CHANGE_REGEX :: regex where
  \<comment> \<open>\<open>/^[a-z]+(\([^)]+\))?!:/\<close>\<close>
  "BREAKING_CHANGE_REGEX =
     Seq (Plus (Class isLower)) (Seq SCOPE (Seq (Chr (CHR ''!'')) (Chr (CHR '':''))))"

definition CONVENTIONAL_COMMIT_REGEX :: regex where
  \<comment> \<open>\<open>/^[a-z]+(\([^)]+\))?!?:/\<close>\<close>
  "CONVENTIONAL_COMMIT_REGEX =
     Seq (Plus (Class isLower)) (Seq SCOPE (Seq (Opt (Chr (CHR ''!''))) (Chr (CHR '':''))))"

definition classify :: "string \<Rightarrow> string \<Rightarrow> semverImpact" where
  \<comment> \<open>Lines 37 to 44 of \<open>getAllCommits\<close>: the impact of a subject line and a footer.\<close>
  "classify msg ftr =
     (if testPrefix BREAKING_CHANGE_REGEX msg \<or> includesStr ftr ''BREAKING CHANGE: '' then Major
      else if testPrefix FEAT_REGEX msg then Minor
      else if testPrefix CONVENTIONAL_COMMIT_REGEX msg then Patch
      else Unknown)"

definition tagVersions :: "string \<Rightarrow> Version list" where
  \<comment> \<open>The versions of the tags among the ref names of one commit; \<open>drop 6\<close> is
      \<open>part.slice(6)\<close>.\<close>
  "tagVersions refNames =
     map parseVersion
       (filter (testWhole SEMVER_REGEX)
         (map (drop 6)
           (filter (\<lambda>part. startsWith part ''tag: v'')
             (map trim (splitOn (CHR '','') refNames)))))"

definition buildCommit :: "string \<Rightarrow> string \<Rightarrow> string \<Rightarrow> Commit" where
  \<comment> \<open>One round of the loop of \<open>getAllCommits\<close>, from the hash, the ref names and the
      body sliced out of the log. When the body has no line feed,
      \<open>firstNewlineIndex\<close> is infinite: the subject is the whole body and the footer is
      empty.\<close>
  "buildCommit h refNames body =
     (case (case indexOf body (CHR ''\<newline>'') of
              None \<Rightarrow> (trim body, trim [])
            | Some k \<Rightarrow> (trim (slice body 0 (int k)),
                         trim (slice body (int k + 1) (int (length body))))) of
        (msg, ftr) \<Rightarrow>
          \<lparr>hash = h, message = msg, footer = ftr, versions = tagVersions refNames,
           semver = classify msg ftr\<rparr>)"

definition matchHeader :: "string \<Rightarrow> (string \<times> string) option" where
  \<comment> \<open>\<open>([\da-f]{40})\$(.*)\<close> tried at the first character of \<open>s\<close>: the hash and the ref
      names (the rest of the line).\<close>
  "matchHeader s =
     (let h = take 40 s
      in if length h = 40 \<and> list_all isHexLower h \<and> take 1 (drop 40 s) = ''$''
         then Some (h, takeWhile (\<lambda>c. \<not> isLineTerminator c) (drop 41 s))
         else None)"

function matchAll :: "nat \<Rightarrow> bool \<Rightarrow> string \<Rightarrow> (nat \<times> string \<times> string) list" where
  \<comment> \<open>\<open>matchAll\<close> with \<open>/(?<=^|\n)([\da-f]{40})\$(.*)/g\<close> on the text that starts at index
      \<open>i\<close> of the log: index and groups of each match, left to right. \<open>atStart\<close> is the
      look-behind: \<open>i\<close> is 0 or follows a line feed. The search goes on where a match
      ends, which is never behind a line feed.\<close>
  "matchAll i atStart [] = []"
| "matchAll i atStart (c # cs) =
     (case (if atStart then matchHeader (c # cs) else None) of
        Some (h, refNames) \<Rightarrow>
          (i, h, refNames) #
            matchAll (i + 41 + length refNames) False (drop (41 + length refNames) (c # cs))
      | None \<Rightarrow> matchAll (i + 1) (c = CHR ''\<newline>'') cs)"
  by pat_completeness auto
termination
  by (relation "measure (\<lambda>(i, b, s). length s)") auto

definition commitsOfLog :: "string \<Rightarrow> Commit list" where
  \<comment> \<open>\<open>getAllCommits\<close> after the log is read. The source's loop runs from the last match
      to the first one and carries \<open>prevIndex\<close>, the index of the match after the current
      one (the length of the log for the last match).\<close>
  "commitsOfLog rawGitLogStr =
     snd (foldr
       (\<lambda>(currIndex, h, refNames) (prevIndex, acc).
          (currIndex,
           buildCommit h refNames
             (slice rawGitLogStr (int currIndex + 42 + int (length refNames)) (int prevIndex - 1))
           # acc))
       (matchAll 0 True rawGitLogStr)
       (length rawGitLogStr, []))"

section \<open>The outside world\<close>

text \<open>
  What the source reads from outside: the \<open>name\<close> of \<open>package.json\<close>, the output of
  \<open>npm show\<close> (\<open>None\<close> when the command fails, which the source catches), the
  connectivity probe, and the output of \<open>git log\<close> (or the exception of \<open>execSync\<close>,
  which the source lets through). A thrown \<open>Error\<close> is a value with its message.
\<close>

datatype error = Error string

record world =
  pkgName :: "string option"
  npmShow :: "string option"
  online :: bool
  gitLog :: "error + string"

definition getPublishedVersion :: "world \<Rightarrow> error + Version" where
  "getPublishedVersion w =
     (case pkgName w of
        None \<Rightarrow> Inl (Error ''package.json needs a name'')
      | Some name \<Rightarrow>
          if name = [] then Inl (Error ''package.json needs a name'')
          else (case npmShow w of
                  Some currVersionStr \<Rightarrow> Inr (parseVersion currVersionStr)
                | None \<Rightarrow>
                    if online w then Inr (parseVersion ''0.0.0-new'')
                    else Inl (Error (''need to be online to determine latest npm version of ''
                                     @ [CHR 0x27] @ name @ [CHR 0x27]))))"

definition getAllCommits :: "world \<Rightarrow> error + Commit list" where
  "getAllCommits w =
     (case gitLog w of Inl e \<Rightarrow> Inl e | Inr rawGitLogStr \<Rightarrow> Inr (commitsOfLog rawGitLogStr))"

section \<open>The release window\<close>

function hashLoop :: "string \<Rightarrow> Commit list \<Rightarrow> nat \<Rightarrow> nat" where
  \<comment> \<open>The first loop of \<open>getCommitsSinceLastRelease\<close>, from index \<open>i\<close>; the result is the
      index at which it stops.\<close>
  "hashLoop lastHashLower allCommits i =
     (if i < length allCommits
      then (if startsWith (hash (allCommits ! i)) lastHashLower then i
            else hashLoop lastHashLower allCommits (i + 1))
      else i)"
  by pat_completeness auto
termination
  by (relation "measure (\<lambda>(l, cs, i). length cs - i)") auto

function tagLoop :: "Commit list \<Rightarrow> nat \<Rightarrow> nat" where
  \<comment> \<open>The second loop of \<open>getCommitsSinceLastRelease\<close>.\<close>
  "tagLoop allCommits i =
     (if i < length allCommits
      then (if length (versions (allCommits ! i)) > 0 then i else tagLoop allCommits (i + 1))
      else i)"
  by pat_completeness auto
termination
  by (relation "measure (\<lambda>(cs, i). length cs - i)") auto

declare hashLoop.simps [simp del] tagLoop.simps [simp del]

definition selectCommits :: "Commit list \<Rightarrow> string option \<Rightarrow> Commit list" where
  \<comment> \<open>\<open>getCommitsSinceLastRelease\<close> after the commits are read. \<open>if (lastHash)\<close> holds for a
      string that is not empty; \<open>take i\<close> is \<open>allCommits.slice(0, i)\<close>.\<close>
  "selectCommits allCommits lastHash =
     (let i = (case lastHash of
                 None \<Rightarrow> tagLoop allCommits 0
               | Some h \<Rightarrow>
                   if h \<noteq> [] then hashLoop (toLowerCase h) allCommits 0
                   else tagLoop allCommits 0)
      in take i allCommits)"

definition getCommitsSinceLastRelease :: "world \<Rightarrow> string option \<Rightarrow> error + Commit list" where
  "getCommitsSinceLastRelease w lastHash =
     (case getAllCommits w of
        Inl e \<Rightarrow> Inl e
      | Inr allCommits \<Rightarrow> Inr (selectCommits allCommits lastHash))"

section \<open>The next version and the buckets\<close>

datatype increment = IncrementMajor | IncrementMinor | IncrementPatch

record ReleaseData =
  prev :: Version
  "next" :: Version
  commits :: "Commit list"
  majors :: "Commit list"
  minors :: "Commit list"
  patches :: "Commit list"

definition bucketStep ::
  "increment \<times> Commit list \<times> Commit list \<times> Commit list \<Rightarrow> Commit \<Rightarrow>
   increment \<times> Commit list \<times> Commit list \<times> Commit list" where
  \<comment> \<open>One round of the loop of \<open>generateRelease\<close> on the state \<open>(increment, majors, minors,
      patches)\<close>; \<open>push\<close> appends.\<close>
  "bucketStep st commit =
     (case st of (inc, mjs, mns, pts) \<Rightarrow>
        if semver commit = Major then (IncrementMajor, mjs @ [commit], mns, pts)
        else if semver commit = Minor then
          ((if inc = IncrementPatch then IncrementMinor else inc), mjs, mns @ [commit], pts)
        else if semver commit = Patch then (inc, mjs, mns, pts @ [commit])
        else (inc, mjs, mns, pts @ [commit\<lparr>message := ''unknown: '' @ message commit\<rparr>]))"

definition nextVersion :: "Version \<Rightarrow> increment \<Rightarrow> Version" where
  \<comment> \<open>Lines 114 to 127 of \<open>generateRelease\<close>. An object literal without \<open>suffix\<close> has no
      suffix.\<close>
  "nextVersion pv inc =
     (if major pv \<ge> 1 \<and>
         isFirstBefore pv \<lparr>major = major pv, minor = 0, patch = 0, suffix = None\<rparr>
      then \<lparr>major = major pv, minor = 0, patch = 0, suffix = None\<rparr>
      else if isFirstBefore pv \<lparr>major = 0, minor = 1, patch = 0, suffix = None\<rparr>
      then \<lparr>major = major pv, minor = 1, patch = 0, suffix = None\<rparr>
      else if inc = IncrementMajor
      then \<lparr>major = major pv + 1, minor = 0, patch = 0, suffix = None\<rparr>
      else if inc = IncrementMinor
      then \<lparr>major = major pv, minor = minor pv + 1, patch = 0, suffix = None\<rparr>
      else \<lparr>major = major pv, minor = minor pv, patch = patch pv + 1, suffix = None\<rparr>)"

definition release :: "Version \<Rightarrow> Commit list \<Rightarrow> ReleaseData" where
  \<comment> \<open>\<open>generateRelease\<close> after the published version and the pending commits are
      read.\<close>
  "release pv cs =
     (case foldl bucketStep (IncrementPatch, [], [], []) cs of
        (inc, mjs, mns, pts) \<Rightarrow>
          \<lparr>prev = pv, next = nextVersion pv inc, commits = cs,
           majors = mjs, minors = mns, patches = pts\<rparr>)"

definition generateRelease :: "world \<Rightarrow> string option \<Rightarrow> error + ReleaseData" where
  "generateRelease w lastHash =
     (case getPublishedVersion w of
        Inl e \<Rightarrow> Inl e
      | Inr pv \<Rightarrow>
          (case getCommitsSinceLastRelease w lastHash of
             Inl e \<Rightarrow> Inl e
           | Inr cs \<Rightarrow> Inr (release pv cs)))"

section \<open>The changelog\<close>

definition toMarkdownList :: "Commit list \<Rightarrow> string" where
  \<comment> \<open>The filter's callback reads \<open>arr\<close>, the array of all bullets before filtering.\<close>
  "toMarkdownList cs =
     (let arr = map (\<lambda>c. ''- '' @ message c) cs
      in join ''\<newline>''
           (map snd
             (filter (\<lambda>(index, m). index = 0 \<or> arr ! (index - 1) \<noteq> m)
               (zip [0..<length arr] arr))))"

definition generateChangelogMarkdown :: "ReleaseData \<Rightarrow> string" where
  \<comment> \<open>\<open>filter(Boolean)\<close> keeps the strings that are not empty.\<close>
  "generateChangelogMarkdown rd =
     (let output =
        join ''\<newline>\<newline>''
          (filter (\<lambda>s. s \<noteq> [])
            [if length (majors rd) > 0
             then ''# Major changes (breaking)\<newline>\<newline>'' @ toMarkdownList (majors rd) else [],
             if length (minors rd) > 0
             then ''# Feature updates\<newline>\<newline>'' @ toMarkdownList (minors rd) else [],
             if length (patches rd) > 0
             then ''# Other commits\<newline>\<newline>'' @ toMarkdownList (patches rd) else []])
      in if output \<noteq> [] then output @ ''\<newline>'' else [])"

section \<open>What the specification says, for comparison\<close>

text \<open>
  The definitions of this section follow the words of the specification, not the
  source; the theorems below compare the source's functions with them.
\<close>

definition aggregatedBump :: "Commit list \<Rightarrow> increment" where
  \<comment> \<open>Major if any commit has major impact, else minor if any commit has minor impact,
      else patch.\<close>
  "aggregatedBump cs =
     (if \<exists>c \<in> set cs. semver c = Major then IncrementMajor
      else if \<exists>c \<in> set cs. semver c = Minor then IncrementMinor
      else IncrementPatch)"

definition rewriteUnknown :: "Commit \<Rightarrow> Commit" where
  \<comment> \<open>A commit of unknown impact gets the prefix \<open>unknown: \<close> on its message.\<close>
  "rewriteUnknown c =
     (if semver c = Unknown then c\<lparr>message := ''unknown: '' @ message c\<rparr> else c)"


definition isTypeToken :: "string \<Rightarrow> bool" where
  \<comment> \<open>A type: one or more lower-case ASCII letters.\<close>
  "isTypeToken ty = (ty \<noteq> [] \<and> (\<forall>c \<in> set ty. isLower c))"

definition isScopeOpt :: "string \<Rightarrow> bool" where
  \<comment> \<open>An optional scope: nothing, or a text in parentheses that is not empty and has no
      closing parenthesis inside.\<close>
  "isScopeOpt sc =
     (sc = [] \<or> (\<exists>inner. sc = ''('' @ inner @ '')'' \<and> inner \<noteq> [] \<and> CHR '')'' \<notin> set inner))"

definition subjectHas :: "(string \<Rightarrow> bool) \<Rightarrow> bool \<Rightarrow> string \<Rightarrow> bool" where
  \<comment> \<open>The subject has the form \<open><type>[(scope)]!:\<close> (the bang required) or
      \<open><type>[(scope)]!?:\<close> (the bang optional), followed by any text.\<close>
  "subjectHas isTy bangRequired msg =
     (\<exists>ty sc bang rest. msg = ty @ sc @ bang @ '':'' @ rest \<and> isTy ty \<and> isScopeOpt sc \<and>
        (bang = ''!'' \<or> (bang = [] \<and> \<not> bangRequired)))"

definition containsStr :: "string \<Rightarrow> string \<Rightarrow> bool" where
  \<comment> \<open>The text \<open>p\<close> occurs somewhere in \<open>s\<close>.\<close>
  "containsStr s p = (\<exists>a b. s = a @ p @ b)"

definition specImpact :: "string \<Rightarrow> string \<Rightarrow> semverImpact" where
  \<comment> \<open>The impact of a subject and a footer, in the specification's words.\<close>
  "specImpact msg ftr =
     (if subjectHas isTypeToken True msg \<or> containsStr ftr ''BREAKING CHANGE: '' then Major
      else if subjectHas (\<lambda>ty. ty = ''feat'') False msg then Minor
      else if subjectHas isTypeToken False msg then Patch
      else Unknown)"

definition typeToken :: "string \<Rightarrow> string" where
  \<comment> \<open>The type of a subject: what stands before its first parenthesis, bang or colon.\<close>
  "typeToken msg = takeWhile (\<lambda>c. c \<noteq> CHR ''('' \<and> c \<noteq> CHR ''!'' \<and> c \<noteq> CHR '':'') msg"

definition hasPrefixIgnoringCase :: "string \<Rightarrow> string \<Rightarrow> bool" where
  \<comment> \<open>\<open>p\<close> is a prefix of \<open>s\<close> when the case of letters is ignored.\<close>
  "hasPrefixIgnoringCase s p = (toLowerCase (take (length p) s) = toLowerCase p)"

definition bulletLines :: "Commit list \<Rightarrow> string list" where
  \<comment> \<open>One bullet for each message, a bullet equal to the one before it left out.\<close>
  "bulletLines cs = remdups_adj (map (\<lambda>c. ''- '' @ message c) cs)"

definition sectionLines :: "string \<Rightarrow> Commit list \<Rightarrow> string list" where
  \<comment> \<open>The lines of a bucket that is not empty: its heading, an empty line, its bullets.\<close>
  "sectionLines heading cs = (if cs = [] then [] else [heading, ''''] @ bulletLines cs)"

fun separated :: "string list list \<Rightarrow> string list" where
  \<comment> \<open>Sections one after the other, an empty line between two of them.\<close>
  "separated [] = []"
| "separated [s] = s"
| "separated (s # t # ss) = s @ [''''] @ separated (t # ss)"

definition changelogLines :: "ReleaseData \<Rightarrow> string list" where
  \<comment> \<open>The lines of the changelog: the sections of the buckets that are not empty, in
      the order major, minor, patch.\<close>
  "changelogLines rd =
     separated (filter (\<lambda>s. s \<noteq> [])
       [sectionLines ''# Major changes (breaking)'' (majors rd),
        sectionLines ''# Feature updates'' (minors rd),
        sectionLines ''# Other commits'' (patches rd)])"

definition unlines :: "string list \<Rightarrow> string" where
  \<comment> \<open>A text made of lines, each one ended by a line feed.\<close>
  "unlines ls = concat (map (\<lambda>l. l @ ''\<newline>'') ls)"

definition noTrailingLineFeed :: "string \<Rightarrow> bool" where
  \<comment> \<open>The message does not end with a line feed.\<close>
  "noTrailingLineFeed m = (m = [] \<or> last m \<noteq> CHR ''\<newline>'')"

section \<open>Examples\<close>

definition exampleLog :: string where
  \<comment> \<open>A log of two commits, as \<open>git log --format=format:'%H$%D%n%B'\<close> prints it.\<close>
  "exampleLog =
     ''0123456789abcdef0123456789abcdef01234567$HEAD -> main, tag: v1.2.3\<newline>feat(api)!: drop v1\<newline>\<newline>Closes #4\<newline>\<newline>89abcdef0123456789abcdef0123456789abcdef$\<newline>Fix: bug\<newline>''"

definition exampleBuckets :: ReleaseData where
  \<comment> \<open>Buckets with a repeated message, next to each other and further away, and an empty
      bucket.\<close>
  "exampleBuckets =
     \<lparr>prev = \<lparr>major = 1, minor = 2, patch = 3, suffix = None\<rparr>,
      next = \<lparr>major = 2, minor = 0, patch = 0, suffix = None\<rparr>,
      commits = [],
      majors = map (\<lambda>m. \<lparr>hash = '''', message = m, footer = '''', versions = [], semver = Major\<rparr>)
                 [''feat!: a'', ''feat!: a'', ''feat!: b'', ''feat!: a''],
      minors = [],
      patches = [\<lparr>hash = '''', message = ''fix: c'', footer = '''', versions = [], semver = Patch\<rparr>]\<rparr>"

section \<open>The matcher decides the language\<close>

lemma star_Cons:
  "c # s \<in> star A \<longleftrightarrow> (\<exists>u v. s = u @ v \<and> c # u \<in> A \<and> v \<in> star A)"
proof
  assume "c # s \<in> star A"
  then show "\<exists>u v. s = u @ v \<and> c # u \<in> A \<and> v \<in> star A"
  proof (induction "c # s" arbitrary: s rule: star.induct)
    case (star_step u v)
    show ?case
    proof (cases u)
      case Nil
      with star_step show ?thesis by simp
    next
      case (Cons d u')
      with star_step.hyps show ?thesis by auto
    qed
  qed
next
  assume "\<exists>u v. s = u @ v \<and> c # u \<in> A \<and> v \<in> star A"
  then obtain u v where "s = u @ v" "c # u \<in> A" "v \<in> star A" by blast
  then show "c # s \<in> star A"
    using star_step [of "c # u" A v] by simp
qed

lemma matchesEmpty_lang: "matchesEmpty r \<longleftrightarrow> [] \<in> lang r"
  by (induction r) (auto intro: star_empty)

lemma after_lang: "s \<in> lang (after c r) \<longleftrightarrow> c # s \<in> lang r"
proof (induction r arbitrary: s)
  case (Seq a b)
  show ?case
  proof
    assume "s \<in> lang (after c (Seq a b))"
    then consider (left) u v where "s = u @ v" "u \<in> lang (after c a)" "v \<in> lang b"
      | (right) "matchesEmpty a" "s \<in> lang (after c b)"
      by (auto split: if_splits)
    then show "c # s \<in> lang (Seq a b)"
    proof cases
      case left
      then have "c # u \<in> lang a" using Seq.IH(1) by simp
      moreover have "c # s = (c # u) @ v" using left by simp
      ultimately show ?thesis using left(3) unfolding lang.simps by blast
    next
      case right
      then have "[] \<in> lang a" "c # s \<in> lang b"
        using Seq.IH(2) by (simp_all add: matchesEmpty_lang)
      moreover have "c # s = [] @ (c # s)" by simp
      ultimately show ?thesis unfolding lang.simps by blast
    qed
  next
    assume "c # s \<in> lang (Seq a b)"
    then obtain u v where uv: "c # s = u @ v" "u \<in> lang a" "v \<in> lang b" by auto
    show "s \<in> lang (after c (Seq a b))"
    proof (cases u)
      case Nil
      with uv have "matchesEmpty a" "s \<in> lang (after c b)"
        using Seq.IH(2) by (simp_all add: matchesEmpty_lang)
      then show ?thesis by simp
    next
      case (Cons d u')
      with uv have "s = u' @ v" "u' \<in> lang (after c a)"
        using Seq.IH(1) by simp_all
      with uv(3) show ?thesis by auto
    qed
  qed
next
  case (Star a)
  show ?case
    by (auto simp: star_Cons Star.IH)
qed auto


lemma testPrefix_lang: "testPrefix r s \<longleftrightarrow> (\<exists>p t. s = p @ t \<and> p \<in> lang r)"
proof (induction s arbitrary: r)
  case Nil
  show ?case by (simp add: matchesEmpty_lang)
next
  case (Cons c cs)
  note IH = Cons.IH
  show ?case
  proof
    assume "testPrefix r (c # cs)"
    then consider "[] \<in> lang r" | p t where "cs = p @ t" "c # p \<in> lang r"
      using IH by (auto simp: matchesEmpty_lang after_lang)
    then show "\<exists>p t. c # cs = p @ t \<and> p \<in> lang r"
    proof cases
      case 1
      moreover have "c # cs = [] @ (c # cs)" by simp
      ultimately show ?thesis by blast
    next
      case 2
      moreover have "c # cs = (c # p) @ t" using 2 by simp
      ultimately show ?thesis by blast
    qed
  next
    assume "\<exists>p t. c # cs = p @ t \<and> p \<in> lang r"
    then obtain p t where pt: "c # cs = p @ t" "p \<in> lang r" by blast
    show "testPrefix r (c # cs)"
    proof (cases p)
      case Nil
      with pt have "[] \<in> lang r" by simp
      then show ?thesis by (simp add: matchesEmpty_lang)
    next
      case (Cons d p')
      with pt have "cs = p' @ t" "p' \<in> lang (after c r)" by (simp_all add: after_lang)
      then show ?thesis using IH by auto
    qed
  qed
qed

section \<open>The three patterns of the classifier\<close>

lemma lang_Seq_iff: "w \<in> lang (Seq a b) \<longleftrightarrow> (\<exists>u v. w = u @ v \<and> u \<in> lang a \<and> v \<in> lang b)"
  by auto

lemma lang_Chr: "lang (Chr x) = {[x]}"
  by (auto simp: Chr_def)

lemma lang_Opt: "lang (Opt r) = insert [] (lang r)"
  by (auto simp: Opt_def)

lemma lang_Lit: "lang (Lit s) = {s}"
  by (induction s) (auto simp: lang_Chr)

lemma star_Class: "star {[c] | c. p c} = {s. \<forall>c \<in> set s. p c}"
proof (rule set_eqI)
  fix s
  show "s \<in> star {[c] | c. p c} \<longleftrightarrow> s \<in> {s. \<forall>c \<in> set s. p c}"
  proof
    assume "s \<in> star {[c] | c. p c}"
    then show "s \<in> {s. \<forall>c \<in> set s. p c}"
      by (induction rule: star.induct) auto
  next
    assume "s \<in> {s. \<forall>c \<in> set s. p c}"
    then show "s \<in> star {[c] | c. p c}"
    proof (induction s)
      case Nil
      show ?case by (rule star_empty)
    next
      case (Cons c s)
      then have "[c] \<in> {[c] | c. p c}" "s \<in> star {[c] | c. p c}" by auto
      then have "[c] @ s \<in> star {[c] | c. p c}" by (rule star_step)
      then show ?case by simp
    qed
  qed
qed

lemma lang_Star_Class: "lang (Star (Class p)) = {s. \<forall>c \<in> set s. p c}"
  by (simp add: star_Class)

lemma lang_Plus_Class: "lang (Plus (Class p)) = {s. s \<noteq> [] \<and> (\<forall>c \<in> set s. p c)}"
proof (rule set_eqI)
  fix s
  show "s \<in> lang (Plus (Class p)) \<longleftrightarrow> s \<in> {s. s \<noteq> [] \<and> (\<forall>c \<in> set s. p c)}"
  proof
    assume "s \<in> lang (Plus (Class p))"
    then obtain u v where "s = u @ v" "u \<in> lang (Class p)" "v \<in> lang (Star (Class p))"
      unfolding Plus_def lang_Seq_iff by blast
    then show "s \<in> {s. s \<noteq> [] \<and> (\<forall>c \<in> set s. p c)}"
      by (auto simp: star_Class)
  next
    assume a: "s \<in> {s. s \<noteq> [] \<and> (\<forall>c \<in> set s. p c)}"
    then obtain c t where s: "s = c # t" by (cases s) auto
    with a have "[c] \<in> lang (Class p)" "t \<in> lang (Star (Class p))"
      by (auto simp: star_Class)
    moreover have "s = [c] @ t" using s by simp
    ultimately show "s \<in> lang (Plus (Class p))"
      unfolding Plus_def lang_Seq_iff by blast
  qed
qed

lemma lang_SCOPE: "sc \<in> lang SCOPE \<longleftrightarrow> isScopeOpt sc"
  unfolding SCOPE_def isScopeOpt_def lang_Opt
  by (auto simp: lang_Seq_iff lang_Chr lang_Plus_Class)

lemma lang_type: "ty \<in> lang (Plus (Class isLower)) \<longleftrightarrow> isTypeToken ty"
  by (simp add: lang_Plus_Class isTypeToken_def)

lemma subject_regex:
  "(\<exists>p t. msg = p @ t \<and> p \<in> lang (Seq T (Seq SCOPE (Seq B (Chr (CHR '':''))))))
   \<longleftrightarrow> (\<exists>ty sc bang rest. msg = ty @ sc @ bang @ '':'' @ rest \<and> ty \<in> lang T \<and> isScopeOpt sc \<and>
         bang \<in> lang B)"
  (is "?L \<longleftrightarrow> ?R")
proof
  assume ?L
  then obtain p t where "msg = p @ t" "p \<in> lang (Seq T (Seq SCOPE (Seq B (Chr (CHR '':'')))))"
    by blast
  then obtain ty sc bang where "p = ty @ sc @ bang @ '':''" "ty \<in> lang T" "sc \<in> lang SCOPE"
    "bang \<in> lang B"
    by (auto simp: lang_Seq_iff lang_Chr)
  with \<open>msg = p @ t\<close> have "msg = ty @ sc @ bang @ '':'' @ t" by simp
  with \<open>ty \<in> lang T\<close> \<open>sc \<in> lang SCOPE\<close> \<open>bang \<in> lang B\<close> show ?R
    by (auto simp: lang_SCOPE)
next
  assume ?R
  then obtain ty sc bang rest where r: "msg = ty @ sc @ bang @ '':'' @ rest" "ty \<in> lang T"
    "isScopeOpt sc" "bang \<in> lang B"
    by blast
  then have "ty @ sc @ bang @ '':'' \<in> lang (Seq T (Seq SCOPE (Seq B (Chr (CHR '':'')))))"
    unfolding lang_Seq_iff lang_Chr lang_SCOPE by blast
  moreover have "msg = (ty @ sc @ bang @ '':'') @ rest" using r(1) by simp
  ultimately show ?L by blast
qed

lemma test_BREAKING_CHANGE_REGEX:
  "testPrefix BREAKING_CHANGE_REGEX msg \<longleftrightarrow> subjectHas isTypeToken True msg"
  unfolding testPrefix_lang BREAKING_CHANGE_REGEX_def subject_regex subjectHas_def
  by (simp add: lang_type lang_Chr)

lemma test_CONVENTIONAL_COMMIT_REGEX:
  "testPrefix CONVENTIONAL_COMMIT_REGEX msg \<longleftrightarrow> subjectHas isTypeToken False msg"
  unfolding testPrefix_lang CONVENTIONAL_COMMIT_REGEX_def subject_regex subjectHas_def
  by (simp add: lang_type lang_Chr lang_Opt) blast

lemma test_FEAT_REGEX:
  "testPrefix FEAT_REGEX msg \<longleftrightarrow> subjectHas (\<lambda>ty. ty = ''feat'') False msg"
  unfolding testPrefix_lang FEAT_REGEX_def subject_regex subjectHas_def
  by (simp add: lang_Lit lang_Chr lang_Opt) blast

lemma startsWith_iff: "startsWith s p \<longleftrightarrow> (\<exists>t. s = p @ t)"
proof
  assume "startsWith s p"
  then have "s = p @ drop (length p) s"
    by (metis append_take_drop_id startsWith_def)
  then show "\<exists>t. s = p @ t" ..
next
  assume "\<exists>t. s = p @ t"
  then show "startsWith s p" by (auto simp: startsWith_def)
qed

lemma includesStr_iff: "includesStr s p \<longleftrightarrow> containsStr s p"
proof (induction s)
  case Nil
  show ?case by (auto simp: containsStr_def)
next
  case (Cons c cs)
  show ?case
  proof
    assume "includesStr (c # cs) p"
    then consider "startsWith (c # cs) p" | "containsStr cs p" using Cons.IH by auto
    then show "containsStr (c # cs) p"
    proof cases
      case 1
      then obtain t where "c # cs = [] @ p @ t" by (auto simp: startsWith_iff)
      then show ?thesis unfolding containsStr_def by blast
    next
      case 2
      then obtain a b where "cs = a @ p @ b" by (auto simp: containsStr_def)
      then have "c # cs = (c # a) @ p @ b" by simp
      then show ?thesis unfolding containsStr_def by blast
    qed
  next
    assume "containsStr (c # cs) p"
    then obtain a b where ab: "c # cs = a @ p @ b" by (auto simp: containsStr_def)
    show "includesStr (c # cs) p"
    proof (cases a)
      case Nil
      with ab have "startsWith (c # cs) p" by (auto simp: startsWith_iff)
      then show ?thesis by simp
    next
      case (Cons d a')
      with ab have "cs = a' @ p @ b" by simp
      then have "containsStr cs p" unfolding containsStr_def by blast
      then show ?thesis using Cons.IH by simp
    qed
  qed
qed

lemma classify_specImpact: "classify msg ftr = specImpact msg ftr"
  by (simp add: classify_def specImpact_def test_BREAKING_CHANGE_REGEX test_FEAT_REGEX
      test_CONVENTIONAL_COMMIT_REGEX includesStr_iff)

lemma matchAll_hash:
  "(i, h, r) \<in> set (matchAll k b s) \<Longrightarrow> length h = 40 \<and> list_all isHexLower h"
proof (induction k b s rule: matchAll.induct)
  case (1 i atStart)
  then show ?case by simp
next
  case (2 k atStart c cs)
  show ?case
  proof (cases "if atStart then matchHeader (c # cs) else None")
    case None
    with 2 show ?thesis by simp
  next
    case (Some hr)
    obtain h' r' where hr: "hr = (h', r')" by (cases hr)
    from Some hr have mh: "matchHeader (c # cs) = Some (h', r')"
      by (simp split: if_splits)
    then have good: "length h' = 40 \<and> list_all isHexLower h'"
      by (auto simp: matchHeader_def Let_def split: if_splits)
    from "2.prems" Some hr
    consider "(i, h, r) = (k, h', r')"
      | "(i, h, r) \<in> set (matchAll (k + 41 + length r') False (drop (41 + length r') (c # cs)))"
      by auto
    then show ?thesis
    proof cases
      case 1
      with good show ?thesis by simp
    next
      case 2
      then show ?thesis using "2.IH"(2) [OF Some hr [symmetric]] by simp
    qed
  qed
qed

lemma foldr_commits_built:
  assumes "c \<in> set (snd (foldr
       (\<lambda>(currIndex, h, refNames) (prevIndex, acc).
          (currIndex,
           buildCommit h refNames
             (slice raw (int currIndex + 42 + int (length refNames)) (int prevIndex - 1))
           # acc))
       ms (n, [])))"
  shows "\<exists>i h r body. (i, h, r) \<in> set ms \<and> c = buildCommit h r body"
  using assms
proof (induction ms arbitrary: c)
  case Nil
  then show ?case by simp
next
  case (Cons m ms)
  obtain i h r where m: "m = (i, h, r)" by (cases m)
  obtain p acc where st: "foldr
       (\<lambda>(currIndex, h, refNames) (prevIndex, acc).
          (currIndex,
           buildCommit h refNames
             (slice raw (int currIndex + 42 + int (length refNames)) (int prevIndex - 1))
           # acc))
       ms (n, []) = (p, acc)"
    by (cases "foldr
       (\<lambda>(currIndex, h, refNames) (prevIndex, acc).
          (currIndex,
           buildCommit h refNames
             (slice raw (int currIndex + 42 + int (length refNames)) (int prevIndex - 1))
           # acc))
       ms (n, [])")
  from Cons.prems m st
  consider "c = buildCommit h r (slice raw (int i + 42 + int (length r)) (int p - 1))"
    | "c \<in> set acc"
    by auto
  then show ?case
  proof cases
    case 1
    with m show ?thesis by auto
  next
    case 2
    with st have "\<exists>i h r body. (i, h, r) \<in> set ms \<and> c = buildCommit h r body"
      using Cons.IH [of c] by simp
    then show ?thesis by auto
  qed
qed

lemma commitsOfLog_built:
  "c \<in> set (commitsOfLog raw) \<Longrightarrow>
   \<exists>h r body. length h = 40 \<and> list_all isHexLower h \<and> c = buildCommit h r body"
  unfolding commitsOfLog_def
  by (drule foldr_commits_built) (auto dest: matchAll_hash)

lemma buildCommit_fields:
  "hash (buildCommit h r body) = h"
  "versions (buildCommit h r body) = tagVersions r"
  "semver (buildCommit h r body)
     = classify (message (buildCommit h r body)) (footer (buildCommit h r body))"
  by (simp_all add: buildCommit_def split: option.split)

lemma commitsOfLog_semver:
  "c \<in> set (commitsOfLog raw) \<Longrightarrow> semver c = classify (message c) (footer c)"
  by (auto dest!: commitsOfLog_built simp: buildCommit_fields)

lemma isTypeToken_feat: "isTypeToken ''feat''"
  by (simp add: isTypeToken_def isLower_def)

lemma typeToken_subject:
  assumes "subjectHas T b msg" and "\<And>ty. T ty \<Longrightarrow> isTypeToken ty"
  shows "isTypeToken (typeToken msg)"
proof -
  from assms(1) obtain ty sc bang rest where
    m: "msg = ty @ sc @ bang @ '':'' @ rest" and ty: "T ty" and sc: "isScopeOpt sc"
    and bang: "bang = ''!'' \<or> (bang = [] \<and> \<not> b)"
    unfolding subjectHas_def by blast
  have tok: "isTypeToken ty" using ty assms(2) by simp
  obtain d r where dr: "sc @ bang @ '':'' @ rest = d # r"
    "d = CHR ''('' \<or> d = CHR ''!'' \<or> d = CHR '':''"
    using sc bang unfolding isScopeOpt_def by (cases sc) auto
  have low: "\<And>c. c \<in> set ty \<Longrightarrow> c \<noteq> CHR ''('' \<and> c \<noteq> CHR ''!'' \<and> c \<noteq> CHR '':''"
    using tok by (auto simp: isTypeToken_def isLower_def)
  have "typeToken msg = ty"
    unfolding typeToken_def m dr(1)
    using low dr(2) by (subst takeWhile_append2) auto
  with tok show ?thesis by simp
qed

lemma test_needs_type:
  "testPrefix BREAKING_CHANGE_REGEX msg \<or> testPrefix FEAT_REGEX msg \<or>
   testPrefix CONVENTIONAL_COMMIT_REGEX msg \<Longrightarrow> isTypeToken (typeToken msg)"
  unfolding test_BREAKING_CHANGE_REGEX test_FEAT_REGEX test_CONVENTIONAL_COMMIT_REGEX
  using typeToken_subject [of isTypeToken _ msg] typeToken_subject [of "\<lambda>ty. ty = ''feat''" _ msg]
    isTypeToken_feat
  by auto

section \<open>The impact of a commit\<close>

lemma exampleLog_commits:
  "commitsOfLog exampleLog =
     [\<lparr>hash = ''0123456789abcdef0123456789abcdef01234567'', message = ''feat(api)!: drop v1'',
       footer = ''Closes #4'',
       versions = [\<lparr>major = 1, minor = 2, patch = 3, suffix = None\<rparr>], semver = Major\<rparr>,
      \<lparr>hash = ''89abcdef0123456789abcdef0123456789abcdef'', message = ''Fix: bug'',
       footer = '''', versions = [], semver = Unknown\<rparr>]"
  by code_simp

text \<open>
  Claim C3: the impact of a commit is major if its subject has the form
  \<open><type>[(scope)]!:\<close> or its footer contains \<open>BREAKING CHANGE: \<close>; otherwise minor if the
  subject has the form \<open>feat[(scope)]!?:\<close>; otherwise patch if it has the form
  \<open><type>[(scope)]!?:\<close>; otherwise unknown. This holds for the classifier on every
  subject and footer, and for every commit parsed from a log.
\<close>

theorem C3_classification:
  "classify msg ftr = specImpact msg ftr \<and>
   (\<forall>c \<in> set (commitsOfLog raw). semver c = specImpact (message c) (footer c))"
  by (simp add: classify_specImpact [symmetric] commitsOfLog_semver)

theorem C3_classification_witness:
  "specImpact ''feat(api)!: drop v1'' ''Closes #4'' = Major \<and>
   specImpact ''feat(api): add v2'' ''Closes #4'' = Minor \<and>
   specImpact ''docs: typo'' '''' = Patch \<and>
   map (\<lambda>c. specImpact (message c) (footer c)) (commitsOfLog exampleLog) = [Major, Unknown]"
proof -
  have "classify ''feat(api)!: drop v1'' ''Closes #4'' = Major"
    "classify ''feat(api): add v2'' ''Closes #4'' = Minor"
    "classify ''docs: typo'' '''' = Patch"
    by code_simp+
  moreover have "map semver (commitsOfLog exampleLog) = [Major, Unknown]"
    by (simp add: exampleLog_commits)
  moreover have "map (\<lambda>c. specImpact (message c) (footer c)) (commitsOfLog exampleLog)
      = map semver (commitsOfLog exampleLog)"
    using C3_classification [of "''''" "''''" exampleLog] by (intro map_cong) simp_all
  ultimately show ?thesis
    using C3_classification [of "''feat(api)!: drop v1''" "''Closes #4''" exampleLog]
      C3_classification [of "''feat(api): add v2''" "''Closes #4''" exampleLog]
      C3_classification [of "''docs: typo''" "''''" exampleLog]
    by simp
qed

text \<open>
  Claim C10: a subject matches one of the three patterns only when its type, what stands
  before the first parenthesis, bang or colon, is one or more lower-case ASCII letters.
  For every commit whose type is anything else (as in \<open>Fix: bug\<close>) the impact is
  unknown, unless the footer contains \<open>BREAKING CHANGE: \<close>, which gives major.
\<close>

theorem C10_type_token_lowercase:
  "(testPrefix BREAKING_CHANGE_REGEX msg \<or> testPrefix FEAT_REGEX msg \<or>
    testPrefix CONVENTIONAL_COMMIT_REGEX msg \<longrightarrow> isTypeToken (typeToken msg)) \<and>
   (\<not> isTypeToken (typeToken msg) \<longrightarrow>
      classify msg ftr = (if containsStr ftr ''BREAKING CHANGE: '' then Major else Unknown)) \<and>
   (\<forall>c \<in> set (commitsOfLog raw). \<not> isTypeToken (typeToken (message c)) \<longrightarrow>
      semver c = (if containsStr (footer c) ''BREAKING CHANGE: '' then Major else Unknown)) \<and>
   typeToken ''Fix: bug'' = ''Fix'' \<and> \<not> isTypeToken ''Fix'' \<and>
   classify ''Fix: bug'' '''' = Unknown"
proof -
  have a: "\<And>m. testPrefix BREAKING_CHANGE_REGEX m \<or> testPrefix FEAT_REGEX m \<or>
    testPrefix CONVENTIONAL_COMMIT_REGEX m \<longrightarrow> isTypeToken (typeToken m)"
    using test_needs_type by blast
  have b: "\<And>m f. \<not> isTypeToken (typeToken m) \<Longrightarrow>
      classify m f = (if containsStr f ''BREAKING CHANGE: '' then Major else Unknown)"
    using a by (auto simp: classify_def includesStr_iff)
  have c: "typeToken ''Fix: bug'' = ''Fix''" "classify ''Fix: bug'' '''' = Unknown"
    by code_simp+
  have d: "\<not> isTypeToken ''Fix''"
    by (simp add: isTypeToken_def isLower_def)
  show ?thesis
    using a b c d by (auto simp: commitsOfLog_semver)
qed

theorem C10_type_token_lowercase_witness:
  "\<not> isTypeToken (typeToken ''Fix: bug'') \<and>
   classify ''Fix: bug'' ''BREAKING CHANGE: the API is gone'' = Major \<and>
   classify ''2fix: bug'' ''see BREAKING CHANGES'' = Unknown \<and>
   \<not> testPrefix CONVENTIONAL_COMMIT_REGEX ''fIx: bug'' \<and>
   message (commitsOfLog exampleLog ! 1) = ''Fix: bug'' \<and>
   semver (commitsOfLog exampleLog ! 1) = Unknown"
proof -
  have t: "typeToken ''Fix: bug'' = ''Fix''" "typeToken ''2fix: bug'' = ''2fix''"
    "typeToken ''fIx: bug'' = ''fIx''"
    by code_simp+
  have n: "\<not> isTypeToken ''Fix''" "\<not> isTypeToken ''2fix''" "\<not> isTypeToken ''fIx''"
    by (simp_all add: isTypeToken_def isLower_def)
  have f: "includesStr ''BREAKING CHANGE: the API is gone'' ''BREAKING CHANGE: ''"
    "\<not> includesStr ''see BREAKING CHANGES'' ''BREAKING CHANGE: ''"
    "\<not> includesStr '''' ''BREAKING CHANGE: ''"
    by code_simp+
  have c: "commitsOfLog exampleLog ! 1 \<in> set (commitsOfLog exampleLog)"
    "message (commitsOfLog exampleLog ! 1) = ''Fix: bug''"
    "footer (commitsOfLog exampleLog ! 1) = ''''"
    by (simp_all add: exampleLog_commits)
  show ?thesis
    using C10_type_token_lowercase [of "''Fix: bug''" "''BREAKING CHANGE: the API is gone''" exampleLog]
      C10_type_token_lowercase [of "''2fix: bug''" "''see BREAKING CHANGES''" "''''"]
      C10_type_token_lowercase [of "''fIx: bug''" "''''" "''''"]
      t n f c
    by (simp add: includesStr_iff [symmetric])
qed

section \<open>The loop of \<open>generateRelease\<close>\<close>

lemma bucketStep_eq:
  "bucketStep (inc, mjs, mns, pts) c =
     (case semver c of
        Major \<Rightarrow> (IncrementMajor, mjs @ [c], mns, pts)
      | Minor \<Rightarrow> ((if inc = IncrementPatch then IncrementMinor else inc), mjs, mns @ [c], pts)
      | Patch \<Rightarrow> (inc, mjs, mns, pts @ [c])
      | Unknown \<Rightarrow> (inc, mjs, mns, pts @ [rewriteUnknown c]))"
  by (simp add: bucketStep_def rewriteUnknown_def split: semverImpact.split)

lemma foldl_bucketStep:
  "foldl bucketStep (inc, mjs, mns, pts) cs =
     ((if \<exists>c \<in> set cs. semver c = Major then IncrementMajor
       else if inc = IncrementPatch \<and> (\<exists>c \<in> set cs. semver c = Minor) then IncrementMinor
       else inc),
      mjs @ filter (\<lambda>c. semver c = Major) cs,
      mns @ filter (\<lambda>c. semver c = Minor) cs,
      pts @ map rewriteUnknown (filter (\<lambda>c. semver c = Patch \<or> semver c = Unknown) cs))"
proof (induction cs arbitrary: inc mjs mns pts)
  case Nil
  show ?case by simp
next
  case (Cons c cs)
  show ?case
  proof (cases "semver c")
    case Major
    then show ?thesis
      by (simp add: bucketStep_eq Cons.IH)
  next
    case Minor
    then show ?thesis
      by (cases inc) (simp_all add: bucketStep_eq Cons.IH)
  next
    case Patch
    then show ?thesis
      by (simp add: bucketStep_eq Cons.IH rewriteUnknown_def)
  next
    case Unknown
    then show ?thesis
      by (simp add: bucketStep_eq Cons.IH)
  qed
qed

lemma release_fields:
  "prev (release pv cs) = pv"
  "next (release pv cs) = nextVersion pv (aggregatedBump cs)"
  "commits (release pv cs) = cs"
  "majors (release pv cs) = filter (\<lambda>c. semver c = Major) cs"
  "minors (release pv cs) = filter (\<lambda>c. semver c = Minor) cs"
  "patches (release pv cs) =
     map rewriteUnknown (filter (\<lambda>c. semver c = Patch \<or> semver c = Unknown) cs)"
  by (simp_all add: release_def foldl_bucketStep aggregatedBump_def)


lemma isFirstBefore_major_line:
  "isFirstBefore pv \<lparr>major = major pv, minor = 0, patch = 0, suffix = None\<rparr>
   \<longleftrightarrow> minor pv = 0 \<and> patch pv = 0 \<and> truthy (suffix pv)"
  by (auto simp: isFirstBefore_def truthy_def)

lemma isFirstBefore_bootstrap:
  "isFirstBefore pv \<lparr>major = 0, minor = 1, patch = 0, suffix = None\<rparr>
   \<longleftrightarrow> major pv = 0 \<and> (minor pv = 0 \<or> (minor pv = 1 \<and> patch pv = 0 \<and> truthy (suffix pv)))"
  by (auto simp: isFirstBefore_def truthy_def)

section \<open>The next version\<close>


text \<open>
  Claim C1, as stated: for every previous version with major at least 1 whose minor or
  patch is not zero, and for every list of pending commits, the next version is
  \<open>{prev.major, 0, 0}\<close>. It fails at the previous version 3.3.9: \<open>isFirstBefore\<close> compares
  the minor 3 with the minor 0 and answers no, so the first rule does not apply; a
  breaking commit gives 4.0.0 and no commit at all gives 3.3.10.
\<close>

theorem C1_normalization_counterexample:
  "1 \<le> major \<lparr>major = 3, minor = 3, patch = 9, suffix = None\<rparr> \<and>
   0 < minor \<lparr>major = 3, minor = 3, patch = 9, suffix = None\<rparr> \<and>
   next (release \<lparr>major = 3, minor = 3, patch = 9, suffix = None\<rparr>
           [buildCommit ''0123456789abcdef0123456789abcdef01234567'' '''' ''feat!: z''])
     = \<lparr>major = 4, minor = 0, patch = 0, suffix = None\<rparr> \<and>
   next (release \<lparr>major = 3, minor = 3, patch = 9, suffix = None\<rparr> [])
     = \<lparr>major = 3, minor = 3, patch = 10, suffix = None\<rparr>"
  by code_simp

text \<open>
  Claim C1, amended: a previous version with major at least 1 is before
  \<open>{prev.major, 0, 0}\<close> exactly when its minor and patch are zero and it carries a
  suffix that is not empty (a pre-release of \<open>X.0.0\<close>, such as 3.0.0-beta); for every
  such previous version and every list of pending commits the next version is
  \<open>{prev.major, 0, 0}\<close>, whatever bump the commits ask for.
\<close>

theorem C1_major_line_normalization:
  "1 \<le> major pv \<Longrightarrow>
     (isFirstBefore pv \<lparr>major = major pv, minor = 0, patch = 0, suffix = None\<rparr>
        \<longleftrightarrow> minor pv = 0 \<and> patch pv = 0 \<and> truthy (suffix pv)) \<and>
     (minor pv = 0 \<and> patch pv = 0 \<and> truthy (suffix pv) \<longrightarrow>
        next (release pv cs) = \<lparr>major = major pv, minor = 0, patch = 0, suffix = None\<rparr>)"
  by (simp add: release_fields nextVersion_def isFirstBefore_major_line)

theorem C1_major_line_normalization_witness:
  "next (release \<lparr>major = 3, minor = 0, patch = 0, suffix = Some ''beta''\<rparr>
           [buildCommit ''0123456789abcdef0123456789abcdef01234567'' '''' ''feat!: z''])
     = \<lparr>major = 3, minor = 0, patch = 0, suffix = None\<rparr>"
  using C1_major_line_normalization
    [of "\<lparr>major = 3, minor = 0, patch = 0, suffix = Some ''beta''\<rparr>"
        "[buildCommit ''0123456789abcdef0123456789abcdef01234567'' '''' ''feat!: z'']"]
  by (simp add: truthy_def)



text \<open>
  Claim C5: for every previous version before 0.1.0 under \<open>isFirstBefore\<close> for which the
  first rule does not apply, the next version is \<open>{prev.major, 1, 0}\<close> whatever the
  pending commits are. Every 0.0.x, with or without a suffix (so the sentinel
  \<open>{0, 0, 0, new}\<close> too), is before 0.1.0, and the previous version 0.0.5 without a
  suffix always gives 0.1.0.
\<close>

theorem C5_bootstrap:
  "(isFirstBefore pv \<lparr>major = 0, minor = 1, patch = 0, suffix = None\<rparr> \<and>
    \<not> (1 \<le> major pv \<and>
         isFirstBefore pv \<lparr>major = major pv, minor = 0, patch = 0, suffix = None\<rparr>)
    \<longrightarrow> next (release pv cs) = \<lparr>major = major pv, minor = 1, patch = 0, suffix = None\<rparr>) \<and>
   isFirstBefore \<lparr>major = 0, minor = 0, patch = x, suffix = sfx\<rparr>
     \<lparr>major = 0, minor = 1, patch = 0, suffix = None\<rparr> \<and>
   next (release \<lparr>major = 0, minor = 0, patch = 5, suffix = None\<rparr> cs)
     = \<lparr>major = 0, minor = 1, patch = 0, suffix = None\<rparr>"
  by (simp add: release_fields nextVersion_def isFirstBefore_def)

theorem C5_bootstrap_witness:
  "isFirstBefore (parseVersion ''nothing published'')
     \<lparr>major = 0, minor = 1, patch = 0, suffix = None\<rparr> \<and>
   parseVersion ''nothing published''
     = \<lparr>major = 0, minor = 0, patch = 0, suffix = Some ''new''\<rparr> \<and>
   next (release (parseVersion ''nothing published'')
           [buildCommit ''0123456789abcdef0123456789abcdef01234567'' '''' ''feat!: z''])
     = \<lparr>major = 0, minor = 1, patch = 0, suffix = None\<rparr>"
proof -
  have p: "parseVersion ''nothing published''
             = \<lparr>major = 0, minor = 0, patch = 0, suffix = Some ''new''\<rparr>"
    by code_simp
  show ?thesis
    using C5_bootstrap [of "parseVersion ''nothing published''"
        "[buildCommit ''0123456789abcdef0123456789abcdef01234567'' '''' ''feat!: z'']" 0 None]
    by (simp add: p isFirstBefore_def truthy_def)
qed

section \<open>Printing a version\<close>

text \<open>
  Claim C8 says that \<open>versionToHumanString\<close> differs from \<open>versionToSemverString\<close> only
  for the all-zero version with a suffix. The source tests \<open>major\<close> twice and never
  \<open>minor\<close>: the version 0.5.0-beta, which is not all zero, is printed \<open>[beta]\<close> and not
  \<open>0.5.0-beta\<close>.
\<close>

theorem C8_human_string_ignores_minor:
  "versionToHumanString \<lparr>major = 0, minor = 5, patch = 0, suffix = Some ''beta''\<rparr> = ''[beta]'' \<and>
   versionToSemverString \<lparr>major = 0, minor = 5, patch = 0, suffix = Some ''beta''\<rparr>
     = ''0.5.0-beta''"
  by code_simp

section \<open>Properties of the release window\<close>

lemma hashLoop_take:
  "i \<le> length cs \<Longrightarrow>
   take (hashLoop l cs i) cs = take i cs @ takeWhile (\<lambda>c. \<not> startsWith (hash c) l) (drop i cs)"
proof (induction l cs i rule: hashLoop.induct)
  case (1 l cs i)
  show ?case
  proof (cases "i < length cs")
    case False
    with "1.prems" show ?thesis by (simp add: hashLoop.simps)
  next
    case True
    then have d: "drop i cs = cs ! i # drop (Suc i) cs"
      by (simp add: Cons_nth_drop_Suc)
    show ?thesis
    proof (cases "startsWith (hash (cs ! i)) l")
      case True
      with \<open>i < length cs\<close> d show ?thesis by (simp add: hashLoop.simps [of l cs i])
    next
      case False
      with \<open>i < length cs\<close> have "take (hashLoop l cs (i + 1)) cs =
          take (i + 1) cs @ takeWhile (\<lambda>c. \<not> startsWith (hash c) l) (drop (i + 1) cs)"
        using "1.IH" by simp
      with False \<open>i < length cs\<close> d show ?thesis
        by (simp add: hashLoop.simps [of l cs i] take_Suc_conv_app_nth)
    qed
  qed
qed

lemma tagLoop_take:
  "i \<le> length cs \<Longrightarrow>
   take (tagLoop cs i) cs = take i cs @ takeWhile (\<lambda>c. versions c = []) (drop i cs)"
proof (induction cs i rule: tagLoop.induct)
  case (1 cs i)
  show ?case
  proof (cases "i < length cs")
    case False
    with "1.prems" show ?thesis by (simp add: tagLoop.simps)
  next
    case True
    then have d: "drop i cs = cs ! i # drop (Suc i) cs"
      by (simp add: Cons_nth_drop_Suc)
    show ?thesis
    proof (cases "versions (cs ! i) = []")
      case False
      with \<open>i < length cs\<close> d show ?thesis by (simp add: tagLoop.simps [of cs i])
    next
      case True
      with \<open>i < length cs\<close> have "take (tagLoop cs (i + 1)) cs =
          take (i + 1) cs @ takeWhile (\<lambda>c. versions c = []) (drop (i + 1) cs)"
        using "1.IH" by simp
      with True \<open>i < length cs\<close> d show ?thesis
        by (simp add: tagLoop.simps [of cs i] take_Suc_conv_app_nth)
    qed
  qed
qed

lemma selectCommits_tag: "selectCommits cs None = takeWhile (\<lambda>c. versions c = []) cs"
  using tagLoop_take [of 0 cs] by (simp add: selectCommits_def)

lemma selectCommits_empty: "selectCommits cs (Some []) = selectCommits cs None"
  by (simp add: selectCommits_def)

lemma selectCommits_hash:
  "h \<noteq> [] \<Longrightarrow>
   selectCommits cs (Some h) = takeWhile (\<lambda>c. \<not> startsWith (hash c) (toLowerCase h)) cs"
  using hashLoop_take [of 0 cs "toLowerCase h"] by (simp add: selectCommits_def)

lemma startsWith_lower:
  "toLowerCase s = s \<Longrightarrow> startsWith s (toLowerCase p) \<longleftrightarrow> hasPrefixIgnoringCase s p"
proof -
  assume "toLowerCase s = s"
  then have "toLowerCase (take (length p) s) = take (length p) s"
    by (metis take_map toLowerCase_def)
  then show ?thesis
    by (simp add: startsWith_def hasPrefixIgnoringCase_def toLowerCase_def)
qed

lemma toLowerChar_hex: "isHexLower c \<Longrightarrow> toLowerChar c = c"
  by (auto simp: isHexLower_def isDigit_def toLowerChar_def Let_def)

lemma toLowerCase_hex: "list_all isHexLower s \<Longrightarrow> toLowerCase s = s"
  by (induction s) (simp_all add: toLowerCase_def toLowerChar_hex)

lemma commitsOfLog_hash_lower:
  "c \<in> set (commitsOfLog raw) \<Longrightarrow> toLowerCase (hash c) = hash c"
  by (auto dest!: commitsOfLog_built simp: buildCommit_fields toLowerCase_hex)

text \<open>
  Claim C4: with a boundary (a string that is not empty, which is what \<open>if (lastHash)\<close>
  asks for) the window is the commits before the first commit whose hash has the
  boundary as a prefix, the case of letters ignored, and the whole history when no hash
  has it; the hashes are in lower case, as those of every parsed commit are. Without a
  boundary the window is the commits before the first commit that carries a version
  tag, and the whole history when no commit carries one. The empty string counts as no
  boundary.
\<close>

theorem C4_release_window:
  "(h \<noteq> [] \<and> (\<forall>c \<in> set cs. toLowerCase (hash c) = hash c) \<longrightarrow>
      selectCommits cs (Some h) = takeWhile (\<lambda>c. \<not> hasPrefixIgnoringCase (hash c) h) cs \<and>
      ((\<forall>c \<in> set cs. \<not> hasPrefixIgnoringCase (hash c) h) \<longrightarrow> selectCommits cs (Some h) = cs)) \<and>
   (\<forall>c \<in> set (commitsOfLog raw). toLowerCase (hash c) = hash c) \<and>
   selectCommits cs None = takeWhile (\<lambda>c. versions c = []) cs \<and>
   ((\<forall>c \<in> set cs. versions c = []) \<longrightarrow> selectCommits cs None = cs) \<and>
   selectCommits cs (Some []) = selectCommits cs None"
proof -
  have a: "selectCommits cs (Some h) = takeWhile (\<lambda>c. \<not> hasPrefixIgnoringCase (hash c) h) cs"
    if "h \<noteq> []" and low: "\<forall>c \<in> set cs. toLowerCase (hash c) = hash c"
  proof -
    have "takeWhile (\<lambda>c. \<not> startsWith (hash c) (toLowerCase h)) cs
        = takeWhile (\<lambda>c. \<not> hasPrefixIgnoringCase (hash c) h) cs"
      using low by (intro takeWhile_cong) (simp_all add: startsWith_lower)
    with \<open>h \<noteq> []\<close> show ?thesis by (simp add: selectCommits_hash)
  qed
  show ?thesis
    using a by (simp add: commitsOfLog_hash_lower selectCommits_tag selectCommits_empty)
qed

theorem C4_release_window_witness:
  "map hash (selectCommits (commitsOfLog exampleLog) (Some ''89AB''))
     = [''0123456789abcdef0123456789abcdef01234567''] \<and>
   map hash (selectCommits (commitsOfLog exampleLog) (Some ''all''))
     = [''0123456789abcdef0123456789abcdef01234567'',
        ''89abcdef0123456789abcdef0123456789abcdef''] \<and>
   selectCommits (commitsOfLog exampleLog) None = [] \<and>
   selectCommits (commitsOfLog exampleLog) (Some '''') = [] \<and>
   map hash (selectCommits (tl (commitsOfLog exampleLog)) None)
     = [''89abcdef0123456789abcdef0123456789abcdef'']"
proof -
  have low: "toLowerCase ''0123456789abcdef0123456789abcdef01234567''
               = ''0123456789abcdef0123456789abcdef01234567''"
    "toLowerCase ''89abcdef0123456789abcdef0123456789abcdef''
               = ''89abcdef0123456789abcdef0123456789abcdef''"
    by code_simp+
  have p: "\<not> hasPrefixIgnoringCase ''0123456789abcdef0123456789abcdef01234567'' ''89AB''"
    "hasPrefixIgnoringCase ''89abcdef0123456789abcdef0123456789abcdef'' ''89AB''"
    "\<not> hasPrefixIgnoringCase ''0123456789abcdef0123456789abcdef01234567'' ''all''"
    "\<not> hasPrefixIgnoringCase ''89abcdef0123456789abcdef0123456789abcdef'' ''all''"
    by code_simp+
  show ?thesis
    using C4_release_window [of "''89AB''" "commitsOfLog exampleLog" exampleLog]
      C4_release_window [of "''all''" "commitsOfLog exampleLog" exampleLog]
      C4_release_window [of "''all''" "tl (commitsOfLog exampleLog)" exampleLog]
    by (simp add: exampleLog_commits low p)
qed

section \<open>Failures\<close>

lemma getPublishedVersion_fails:
  "(\<exists>e. getPublishedVersion w = Inl e) \<longleftrightarrow>
   (\<not> truthy (pkgName w) \<or> (npmShow w = None \<and> \<not> online w))"
  by (auto simp: getPublishedVersion_def truthy_def split: option.splits)

lemma generateRelease_fails:
  "(\<exists>e. generateRelease w lh = Inl e) \<longleftrightarrow>
   (\<not> truthy (pkgName w) \<or> (npmShow w = None \<and> \<not> online w) \<or> (\<exists>e. gitLog w = Inl e))"
proof -
  have "(\<exists>e. generateRelease w lh = Inl e) \<longleftrightarrow>
        ((\<exists>e. getPublishedVersion w = Inl e) \<or> (\<exists>e. gitLog w = Inl e))"
    by (auto simp: generateRelease_def getCommitsSinceLastRelease_def getAllCommits_def
        split: sum.splits)
  then show ?thesis by (simp add: getPublishedVersion_fails)
qed

lemma generateRelease_succeeds:
  "getPublishedVersion w = Inr pv \<Longrightarrow> gitLog w = Inr raw \<Longrightarrow>
   generateRelease w lh = Inr (release pv (selectCommits (commitsOfLog raw) lh))"
  by (simp add: generateRelease_def getCommitsSinceLastRelease_def getAllCommits_def)

lemma release_Nil:
  "release pv [] = \<lparr>prev = pv, next = nextVersion pv IncrementPatch, commits = [],
                    majors = [], minors = [], patches = []\<rparr>"
  by (simp add: release_def)

text \<open>
  Claim C9, as stated: commit-history text that cannot be split into commit records, and
  an empty pending window with no boundary and no tag, are reported to the caller as
  failures of their own kinds. The source has no such failure: a text without any commit
  header parses to no commit, and the release of no commit is computed as any other.
\<close>

theorem C9_no_named_failure_counterexample:
  "commitsOfLog ''this is not a commit log'' = [] \<and>
   generateRelease
     \<lparr>pkgName = Some ''pub-time'', npmShow = Some ''1.0.0'', online = True,
      gitLog = Inr ''this is not a commit log''\<rparr> None
   = Inr \<lparr>prev = \<lparr>major = 1, minor = 0, patch = 0, suffix = None\<rparr>,
          next = \<lparr>major = 1, minor = 0, patch = 1, suffix = None\<rparr>,
          commits = [], majors = [], minors = [], patches = []\<rparr>"
  by code_simp

text \<open>
  Claim C9, amended: \<open>generateRelease\<close> fails exactly when what it reads from outside
  fails, each time with a plain \<open>Error\<close>: \<open>package.json\<close> has no name, \<open>npm show\<close> fails
  while the machine is offline, or \<open>git log\<close> fails. In every other case it returns the
  release of the selected commits; a log without commit headers gives no commit, and no
  pending commit gives empty buckets and the patch bump (or an override) of the previous
  version.
\<close>

theorem C9_failures_come_from_outside:
  "((\<exists>e. generateRelease w lh = Inl e) \<longleftrightarrow>
      (\<not> truthy (pkgName w) \<or> (npmShow w = None \<and> \<not> online w) \<or> (\<exists>e. gitLog w = Inl e))) \<and>
   (getPublishedVersion w = Inr pv \<and> gitLog w = Inr raw \<longrightarrow>
      generateRelease w lh = Inr (release pv (selectCommits (commitsOfLog raw) lh))) \<and>
   (matchAll 0 True raw = [] \<longrightarrow> commitsOfLog raw = []) \<and>
   selectCommits [] lh = [] \<and>
   release pv [] = \<lparr>prev = pv, next = nextVersion pv IncrementPatch, commits = [],
                    majors = [], minors = [], patches = []\<rparr>"
  by (simp add: generateRelease_fails generateRelease_succeeds release_Nil commitsOfLog_def
      selectCommits_def)

theorem C9_failures_come_from_outside_witness:
  "generateRelease
     \<lparr>pkgName = Some ''pub-time'', npmShow = None, online = False,
      gitLog = Inr exampleLog\<rparr> None
   = Inl (Error (''need to be online to determine latest npm version of ''
                 @ [CHR 0x27] @ ''pub-time'' @ [CHR 0x27])) \<and>
   generateRelease
     \<lparr>pkgName = Some ''pub-time'', npmShow = None, online = True, gitLog = Inr ''''\<rparr> None
   = Inr \<lparr>prev = \<lparr>major = 0, minor = 0, patch = 0, suffix = Some ''new''\<rparr>,
          next = \<lparr>major = 0, minor = 1, patch = 0, suffix = None\<rparr>,
          commits = [], majors = [], minors = [], patches = []\<rparr>"
proof -
  have v: "getPublishedVersion
      \<lparr>pkgName = Some ''pub-time'', npmShow = None, online = True, gitLog = Inr ''''\<rparr>
      = Inr \<lparr>major = 0, minor = 0, patch = 0, suffix = Some ''new''\<rparr>"
    by code_simp
  have n: "nextVersion \<lparr>major = 0, minor = 0, patch = 0, suffix = Some ''new''\<rparr> IncrementPatch
      = \<lparr>major = 0, minor = 1, patch = 0, suffix = None\<rparr>"
    by code_simp
  have m: "matchAll 0 True '''' = []"
    by simp
  have "\<exists>e. generateRelease
     \<lparr>pkgName = Some ''pub-time'', npmShow = None, online = False,
      gitLog = Inr exampleLog\<rparr> None = Inl e"
    using C9_failures_come_from_outside
      [of "\<lparr>pkgName = Some ''pub-time'', npmShow = None, online = False,
            gitLog = Inr exampleLog\<rparr>" None]
    by simp
  then have "generateRelease
     \<lparr>pkgName = Some ''pub-time'', npmShow = None, online = False,
      gitLog = Inr exampleLog\<rparr> None
   = Inl (Error (''need to be online to determine latest npm version of ''
                 @ [CHR 0x27] @ ''pub-time'' @ [CHR 0x27]))"
    by (auto simp: generateRelease_def getPublishedVersion_def)
  moreover have "generateRelease
     \<lparr>pkgName = Some ''pub-time'', npmShow = None, online = True, gitLog = Inr ''''\<rparr> None
   = Inr \<lparr>prev = \<lparr>major = 0, minor = 0, patch = 0, suffix = Some ''new''\<rparr>,
          next = \<lparr>major = 0, minor = 1, patch = 0, suffix = None\<rparr>,
          commits = [], majors = [], minors = [], patches = []\<rparr>"
    using C9_failures_come_from_outside
      [of "\<lparr>pkgName = Some ''pub-time'', npmShow = None, online = True, gitLog = Inr ''''\<rparr>"
          None "\<lparr>major = 0, minor = 0, patch = 0, suffix = Some ''new''\<rparr>" "''''"]
      v n m
    by simp
  ultimately show ?thesis by simp
qed

section \<open>Properties of the changelog\<close>

lemma index_filter_snoc:
  "map snd (filter (\<lambda>(index, m). index = 0 \<or> (ys @ [y]) ! (index - 1) \<noteq> m)
      (zip [0..<length (ys @ [y])] (ys @ [y])))
   = map snd (filter (\<lambda>(index, m). index = 0 \<or> ys ! (index - 1) \<noteq> m) (zip [0..<length ys] ys))
     @ (if ys = [] \<or> last ys \<noteq> y then [y] else [])"
proof -
  have z: "zip [0..<length (ys @ [y])] (ys @ [y]) = zip [0..<length ys] ys @ [(length ys, y)]"
    by simp
  have f: "filter (\<lambda>(index, m). index = 0 \<or> (ys @ [y]) ! (index - 1) \<noteq> m) (zip [0..<length ys] ys)
      = filter (\<lambda>(index, m). index = 0 \<or> ys ! (index - 1) \<noteq> m) (zip [0..<length ys] ys)"
  proof (rule filter_cong [OF refl])
    fix x
    assume "x \<in> set (zip [0..<length ys] ys)"
    moreover obtain i m where x: "x = (i, m)" by (cases x)
    ultimately have "i \<in> set [0..<length ys]" by (auto dest: set_zip_leftD)
    then have "i < length ys" by simp
    then have "i - 1 < length ys" by simp
    then have "(ys @ [y]) ! (i - 1) = ys ! (i - 1)"
      by (simp only: nth_append if_True)
    with x show "(case x of (index, m) \<Rightarrow> index = 0 \<or> (ys @ [y]) ! (index - 1) \<noteq> m)
        = (case x of (index, m) \<Rightarrow> index = 0 \<or> ys ! (index - 1) \<noteq> m)"
      by simp
  qed
  have l: "ys \<noteq> [] \<Longrightarrow> (ys @ [y]) ! (length ys - 1) = last ys"
    by (simp add: nth_append last_conv_nth)
  show ?thesis
    unfolding z filter_append f using l by auto
qed

lemma index_filter_remdups_adj:
  "map snd (filter (\<lambda>(index, m). index = 0 \<or> arr ! (index - 1) \<noteq> m) (zip [0..<length arr] arr))
   = remdups_adj arr"
proof (induction arr rule: rev_induct)
  case Nil
  show ?case by simp
next
  case (snoc y ys)
  have r: "remdups_adj (ys @ [y]) = remdups_adj ys @ (if ys = [] \<or> last ys \<noteq> y then [y] else [])"
  proof (cases ys rule: rev_cases)
    case Nil
    then show ?thesis by simp
  next
    case (snoc zs z)
    then show ?thesis by (simp add: remdups_adj_append_two)
  qed
  show ?case
    unfolding index_filter_snoc snoc.IH r ..
qed

lemma toMarkdownList_bullets: "toMarkdownList cs = join ''\<newline>'' (bulletLines cs)"
  unfolding toMarkdownList_def bulletLines_def Let_def index_filter_remdups_adj ..

lemma bulletLines_empty: "bulletLines cs = [] \<longleftrightarrow> cs = []"
  by (simp add: bulletLines_def)

lemma unlines_join: "ls \<noteq> [] \<Longrightarrow> unlines ls = join ''\<newline>'' ls @ ''\<newline>''"
proof (induction ls)
  case Nil
  then show ?case by simp
next
  case (Cons l ls)
  show ?case
  proof (cases ls)
    case Nil
    then show ?thesis by (simp add: unlines_def)
  next
    case (Cons k ks)
    with Cons.IH have "unlines ls = join ''\<newline>'' ls @ ''\<newline>''" by simp
    moreover have "unlines (l # ls) = l @ ''\<newline>'' @ unlines ls" by (simp add: unlines_def)
    ultimately show ?thesis using Cons by simp
  qed
qed

lemma unlines_append: "unlines (xs @ ys) = unlines xs @ unlines ys"
  by (simp add: unlines_def)

lemma unlines_bullets: "cs \<noteq> [] \<Longrightarrow> unlines (bulletLines cs) = toMarkdownList cs @ ''\<newline>''"
  by (simp add: toMarkdownList_bullets unlines_join bulletLines_empty)

lemma unlines_section:
  "cs \<noteq> [] \<Longrightarrow>
   unlines (sectionLines heading cs) = heading @ ''\<newline>\<newline>'' @ toMarkdownList cs @ ''\<newline>''"
proof -
  assume "cs \<noteq> []"
  then have "unlines (sectionLines heading cs)
      = heading @ ''\<newline>\<newline>'' @ unlines (bulletLines cs)"
    by (simp add: sectionLines_def unlines_def)
  with \<open>cs \<noteq> []\<close> show ?thesis
    by (simp add: unlines_bullets)
qed

lemma sectionLines_empty: "sectionLines heading cs = [] \<longleftrightarrow> cs = []"
  by (simp add: sectionLines_def)

lemma changelog_lines: "generateChangelogMarkdown rd = unlines (changelogLines rd)"
proof -
  have e: "unlines [] = []" "\<And>l ls. unlines (l # ls) = l @ ''\<newline>'' @ unlines ls"
    by (simp_all add: unlines_def)
  show ?thesis
    by (cases "majors rd = []"; cases "minors rd = []"; cases "patches rd = []")
      (simp_all add: generateChangelogMarkdown_def changelogLines_def Let_def sectionLines_empty
        unlines_append unlines_section e)
qed

lemma last_sectionLines:
  "cs \<noteq> [] \<Longrightarrow> last (sectionLines heading cs) = ''- '' @ message (last cs)"
  by (simp add: sectionLines_def bulletLines_def last_map)

lemma last_changelogLines:
  assumes "\<not> (majors rd = [] \<and> minors rd = [] \<and> patches rd = [])"
  shows "changelogLines rd \<noteq> [] \<and>
         (\<exists>c \<in> set (majors rd @ minors rd @ patches rd).
            last (changelogLines rd) = ''- '' @ message c)"
proof -
  have n: "\<And>heading cs. cs \<noteq> [] \<Longrightarrow> sectionLines heading cs \<noteq> []"
    by (simp add: sectionLines_def)
  have l: "\<And>cs. cs \<noteq> [] \<Longrightarrow> last cs \<in> set cs"
    by simp
  show ?thesis
    using assms
    by (cases "majors rd = []"; cases "minors rd = []"; cases "patches rd = []")
      (auto simp: changelogLines_def sectionLines_empty last_sectionLines n
        intro: bexI [where x = "last (patches rd)"] bexI [where x = "last (minors rd)"]
          bexI [where x = "last (majors rd)"])
qed

lemma unlines_last: "ls \<noteq> [] \<Longrightarrow> unlines ls = unlines (butlast ls) @ last ls @ ''\<newline>''"
proof -
  assume "ls \<noteq> []"
  then have "unlines ls = unlines (butlast ls @ [last ls])" by simp
  also have "\<dots> = unlines (butlast ls) @ last ls @ ''\<newline>''"
    unfolding unlines_append by (simp add: unlines_def)
  finally show ?thesis .
qed

lemma one_trailing_line_feed:
  assumes "\<not> (majors rd = [] \<and> minors rd = [] \<and> patches rd = [])"
    and "\<forall>c \<in> set (majors rd @ minors rd @ patches rd). noTrailingLineFeed (message c)"
  shows "\<exists>body ch. generateChangelogMarkdown rd = body @ [ch, CHR ''\<newline>''] \<and> ch \<noteq> CHR ''\<newline>''"
proof -
  from last_changelogLines [OF assms(1)] obtain c where
    ne: "changelogLines rd \<noteq> []" and c: "c \<in> set (majors rd @ minors rd @ patches rd)"
    and l: "last (changelogLines rd) = ''- '' @ message c"
    by blast
  from c assms(2) have m: "noTrailingLineFeed (message c)" by blast
  have "generateChangelogMarkdown rd
      = unlines (butlast (changelogLines rd)) @ (''- '' @ message c) @ ''\<newline>''"
    using unlines_last [OF ne] l by (simp add: changelog_lines)
  also have "''- '' @ message c = butlast (''- '' @ message c) @ [last (''- '' @ message c)]"
    by simp
  finally have "generateChangelogMarkdown rd
      = (unlines (butlast (changelogLines rd)) @ butlast (''- '' @ message c))
        @ [last (''- '' @ message c), CHR ''\<newline>'']"
    by simp
  moreover have "last (''- '' @ message c) \<noteq> CHR ''\<newline>''"
    using m by (auto simp: noTrailingLineFeed_def)
  ultimately show ?thesis by blast
qed

lemma isWhiteSpace_line_feed: "isWhiteSpace (CHR ''\<newline>'')"
  by (simp add: isWhiteSpace_def)

lemma trim_last: "trim s \<noteq> [] \<Longrightarrow> \<not> isWhiteSpace (last (trim s))"
proof -
  assume a: "trim s \<noteq> []"
  let ?r = "dropWhile isWhiteSpace (rev (dropWhile isWhiteSpace s))"
  from a have "?r \<noteq> []" by (simp add: trim_def)
  then have "\<not> isWhiteSpace (hd ?r)" by (rule hd_dropWhile)
  moreover have "last (trim s) = hd ?r"
    using \<open>?r \<noteq> []\<close> by (simp add: trim_def last_rev)
  ultimately show ?thesis by simp
qed

lemma trim_noTrailingLineFeed: "noTrailingLineFeed (trim s)"
  using trim_last [of s] isWhiteSpace_line_feed by (auto simp: noTrailingLineFeed_def)

lemma buildCommit_message: "noTrailingLineFeed (message (buildCommit h r body))"
  by (simp add: buildCommit_def trim_noTrailingLineFeed split: option.split)

lemma commitsOfLog_message:
  "c \<in> set (commitsOfLog raw) \<Longrightarrow> noTrailingLineFeed (message c)"
  by (auto dest!: commitsOfLog_built simp: buildCommit_message)

lemma selectCommits_subset: "c \<in> set (selectCommits cs lh) \<Longrightarrow> c \<in> set cs"
  by (auto simp: selectCommits_def Let_def dest: in_set_takeD)

lemma rewriteUnknown_message:
  "noTrailingLineFeed (message c) \<Longrightarrow> noTrailingLineFeed (message (rewriteUnknown c))"
  by (auto simp: rewriteUnknown_def noTrailingLineFeed_def)

lemma release_messages:
  assumes "\<forall>c \<in> set cs. noTrailingLineFeed (message c)"
  shows "\<forall>c \<in> set (majors (release pv cs) @ minors (release pv cs) @ patches (release pv cs)).
           noTrailingLineFeed (message c)"
  using assms by (auto simp: release_fields rewriteUnknown_message)

lemma pipeline_messages:
  "\<forall>c \<in> set (majors (release pv (selectCommits (commitsOfLog raw) lh))
             @ minors (release pv (selectCommits (commitsOfLog raw) lh))
             @ patches (release pv (selectCommits (commitsOfLog raw) lh))).
     noTrailingLineFeed (message c)"
  by (rule release_messages) (auto dest: selectCommits_subset commitsOfLog_message)

text \<open>
  Claim C7: the changelog is made of the sections of the buckets that are not empty, in
  the order major, minor, patch, with an empty line between two sections; a section is
  its heading, an empty line, and one bullet for each message of the bucket in the
  bucket's order, a bullet equal to the bullet before it left out (a repeat further away
  is kept). With all buckets empty the changelog is the empty string. Otherwise, when no
  message ends with a line feed, it ends with one line feed and no more; the messages of
  the commits of a release computed from a log never end with a line feed.
\<close>

theorem C7_changelog:
  "generateChangelogMarkdown rd = unlines (changelogLines rd) \<and>
   (majors rd = [] \<and> minors rd = [] \<and> patches rd = [] \<longrightarrow> generateChangelogMarkdown rd = []) \<and>
   (\<not> (majors rd = [] \<and> minors rd = [] \<and> patches rd = []) \<and>
    (\<forall>c \<in> set (majors rd @ minors rd @ patches rd). noTrailingLineFeed (message c)) \<longrightarrow>
      (\<exists>body ch. generateChangelogMarkdown rd = body @ [ch, CHR ''\<newline>''] \<and>
         ch \<noteq> CHR ''\<newline>'')) \<and>
   (\<forall>c \<in> set (majors (release pv (selectCommits (commitsOfLog raw) lh))
              @ minors (release pv (selectCommits (commitsOfLog raw) lh))
              @ patches (release pv (selectCommits (commitsOfLog raw) lh))).
      noTrailingLineFeed (message c))"
proof -
  have "majors rd = [] \<and> minors rd = [] \<and> patches rd = [] \<longrightarrow> generateChangelogMarkdown rd = []"
    by (simp add: generateChangelogMarkdown_def)
  then show ?thesis
    using changelog_lines [of rd] one_trailing_line_feed [of rd] pipeline_messages [of pv raw lh]
    by blast
qed

theorem C7_changelog_witness:
  "generateChangelogMarkdown exampleBuckets =
     ''# Major changes (breaking)\<newline>\<newline>- feat!: a\<newline>- feat!: b\<newline>- feat!: a\<newline>\<newline># Other commits\<newline>\<newline>- fix: c\<newline>'' \<and>
   generateChangelogMarkdown (exampleBuckets\<lparr>majors := [], patches := []\<rparr>) = [] \<and>
   (\<exists>body ch. generateChangelogMarkdown exampleBuckets = body @ [ch, CHR ''\<newline>''] \<and>
      ch \<noteq> CHR ''\<newline>'')"
proof -
  have u: "unlines (changelogLines exampleBuckets) =
     ''# Major changes (breaking)\<newline>\<newline>- feat!: a\<newline>- feat!: b\<newline>- feat!: a\<newline>\<newline># Other commits\<newline>\<newline>- fix: c\<newline>''"
    by code_simp
  have e: "majors (exampleBuckets\<lparr>majors := [], patches := []\<rparr>) = [] \<and>
    minors (exampleBuckets\<lparr>majors := [], patches := []\<rparr>) = [] \<and>
    patches (exampleBuckets\<lparr>majors := [], patches := []\<rparr>) = []"
    by (simp add: exampleBuckets_def)
  have h: "\<not> (majors exampleBuckets = [] \<and> minors exampleBuckets = []
                    \<and> patches exampleBuckets = []) \<and>
      (\<forall>c \<in> set (majors exampleBuckets @ minors exampleBuckets @ patches exampleBuckets).
         noTrailingLineFeed (message c))"
    by (auto simp: exampleBuckets_def noTrailingLineFeed_def)
  have 1: "generateChangelogMarkdown exampleBuckets =
     ''# Major changes (breaking)\<newline>\<newline>- feat!: a\<newline>- feat!: b\<newline>- feat!: a\<newline>\<newline># Other commits\<newline>\<newline>- fix: c\<newline>''"
    using C7_changelog [of exampleBuckets, THEN conjunct1] u by (rule trans)
  have 2: "generateChangelogMarkdown (exampleBuckets\<lparr>majors := [], patches := []\<rparr>) = []"
    using C7_changelog [of "exampleBuckets\<lparr>majors := [], patches := []\<rparr>",
        THEN conjunct2, THEN conjunct1] e by (rule mp)
  have 3: "\<exists>body ch. generateChangelogMarkdown exampleBuckets = body @ [ch, CHR ''\<newline>''] \<and>
      ch \<noteq> CHR ''\<newline>''"
    using C7_changelog [of exampleBuckets, THEN conjunct2, THEN conjunct2, THEN conjunct1] h
    by (rule mp)
  from 1 2 3 show ?thesis by (intro conjI)
qed

section \<open>Parsing and printing a version\<close>








lemma digit_is_ident: "isDigit c \<Longrightarrow> isIdentChar c"
  by (simp add: isIdentChar_def)


















end
